theory Spec2Isabelle
  imports Main "HOL-Library.Word"
begin

section \<open>The block scanner (internal/svc/blk\_scanner.go)\<close>

subsection \<open>Constants and data\<close>

type_synonym u64 = "64 word"

text \<open>A Go \<open>error\<close> value is represented by its message; \<open>Inl\<close> carries the error of
  a call that returns \<open>(value, err)\<close>, \<open>Inr\<close> the value returned with a nil error.\<close>

type_synonym error = string

text \<open>The two scanner states (\<open>iota\<close> constants 0 and 1 of the const block). The zero
  value of the \<open>state\<close> field is \<open>blkIsScanning\<close>.\<close>

datatype blk_state = blkIsScanning | blkIsIdling

definition defStartingBlockNumber :: u64 where
  "defStartingBlockNumber = 16000000"

definition blkScannerHysteresis :: u64 where
  "blkScannerHysteresis = 10"

text \<open>Of a block header (\<open>eth.Header\<close>) the scanner itself reads nothing; the model keeps
  the block height, which is what the statements about emitted heights speak of.\<close>

record header =
  number :: nat

text \<open>The scanner structure. The channels are modelled by their content:
  \<^item> \<open>sigStop\<close> has capacity one; the field says whether the slot is occupied;
  \<^item> \<open>outBlocks\<close> is the sequence of all headers sent so far, oldest first;
  \<^item> \<open>outStateChange\<close> is the sequence of state notifications a listener received.
  \<open>closedCalls\<close> counts the invocations of \<open>mgr.closed(bs)\<close>.\<close>

record blkScanner =
  sigStop :: bool
  outBlocks :: "header list"
  outStateChange :: "blk_state list"
  state :: blk_state
  current :: u64
  target :: u64
  closedCalls :: nat

text \<open>What the outside world contributes to one iteration of the loop in \<open>run\<close>:
  which case each \<open>select\<close> statement takes and what the repository calls return.
  The channel \<open>inObservedBlocks\<close> is not created by \<open>newBlkScanner\<close>; it is assigned
  from outside this file. In \<open>scanNext\<close> the stop case is taken when a signal is in the
  slot already or is sent, by \<open>close\<close>, while the scanner waits.\<close>

datatype sel_case =
    SelStop             \<comment> \<open>\<open>case <-bs.sigStop\<close>\<close>
  | SelTgTick           \<comment> \<open>\<open>case <-tgTick.C\<close>\<close>
  | SelLogTick          \<comment> \<open>\<open>case <-logTick.C\<close>\<close>
  | SelObserved u64     \<comment> \<open>\<open>case bid := <-bs.inObservedBlocks\<close>\<close>
  | SelDefault          \<comment> \<open>\<open>default\<close>\<close>

datatype scan_case =
    ScanStop            \<comment> \<open>\<open>case <-bs.sigStop\<close> of either select in \<open>scanNext\<close>\<close>
  | ScanOther           \<comment> \<open>the other case: the 5 second timeout, or the send on \<open>outBlocks\<close>\<close>

record env =
  sel :: sel_case
  tickHead :: "error + u64"            \<comment> \<open>\<open>CurrentHead()\<close> as called from the \<open>tgTick\<close> case\<close>
  PullHeader :: "u64 \<Rightarrow> error + header"
  scanSel :: scan_case
  checkHead :: "error + u64"           \<comment> \<open>\<open>CurrentHead()\<close> as called from \<open>checkTarget\<close>\<close>
  listener :: bool                     \<comment> \<open>a receiver is waiting on \<open>outStateChange\<close>\<close>

subsection \<open>Initialisation\<close>

definition newBlkScanner :: blkScanner where
  "newBlkScanner =
     \<lparr> sigStop = False, outBlocks = [], outStateChange = [], state = blkIsScanning,
       current = 0, target = 0, closedCalls = 0 \<rparr>"

text \<open>\<open>top\<close> (named \<open>top_bs\<close> here), given the result of \<open>repository.R().CurrentHead()\<close>.\<close>

definition top_bs :: "error + u64 \<Rightarrow> u64" where
  "top_bs r = (case r of Inl err \<Rightarrow> 0 | Inr cur \<Rightarrow> cur)"

text \<open>\<open>start\<close>, given the result of \<open>repository.R().LastSeenBlockNumber()\<close>.\<close>

definition start :: "error + u64 \<Rightarrow> u64" where
  "start r =
     (case r of
        Inl err \<Rightarrow> 0
      | Inr lnb \<Rightarrow> if lnb = 0 then defStartingBlockNumber else lnb)"

text \<open>\<open>init\<close> on a fresh scanner; the registration \<open>mgr.add(bs)\<close> does not touch the
  scanner.\<close>

definition init :: "error + u64 \<Rightarrow> error + u64 \<Rightarrow> blkScanner" where
  "init lastSeen head = newBlkScanner \<lparr> current := start lastSeen, target := top_bs head \<rparr>"

subsection \<open>The loop body\<close>

text \<open>The first \<open>select\<close> of the loop. The stop case takes the value out of the slot.\<close>

definition select_case :: "env \<Rightarrow> blkScanner \<Rightarrow> blkScanner" where
  "select_case e bs =
     (case sel e of
        SelStop \<Rightarrow> bs \<lparr> sigStop := False \<rparr>
      | SelTgTick \<Rightarrow> bs \<lparr> target := top_bs (tickHead e) \<rparr>
      | SelLogTick \<Rightarrow> bs
      | SelObserved bid \<Rightarrow>
          if state bs = blkIsIdling \<and> bid > current bs then bs \<lparr> current := bid \<rparr> else bs
      | SelDefault \<Rightarrow> bs)"

text \<open>In both selects of \<open>scanNext\<close> the stop case receives the signal and sends it again,
  so the slot is occupied afterwards.\<close>

definition scanNext :: "env \<Rightarrow> blkScanner \<Rightarrow> blkScanner" where
  "scanNext e bs =
     (if state bs = blkIsScanning \<and> current bs < target bs then
        (case PullHeader e (current bs) of
           Inl err \<Rightarrow>
             (case scanSel e of
                ScanStop \<Rightarrow> bs \<lparr> sigStop := True \<rparr>
              | ScanOther \<Rightarrow> bs)
         | Inr hdr \<Rightarrow>
             (case scanSel e of
                ScanOther \<Rightarrow> bs \<lparr> outBlocks := outBlocks bs @ [hdr], current := current bs + 1 \<rparr>
              | ScanStop \<Rightarrow> bs \<lparr> sigStop := True \<rparr>))
      else bs)"

text \<open>The non-blocking send of the state on \<open>outStateChange\<close>.\<close>

definition notify :: "env \<Rightarrow> blkScanner \<Rightarrow> blkScanner" where
  "notify e bs =
     (if listener e then bs \<lparr> outStateChange := outStateChange bs @ [state bs] \<rparr> else bs)"

definition checkTarget :: "env \<Rightarrow> blkScanner \<Rightarrow> blkScanner" where
  "checkTarget e bs =
     (if state bs = blkIsScanning \<and> current bs > target bs then
        (let bs1 = bs \<lparr> target := top_bs (checkHead e) \<rparr>;
             diff = target bs1 - current bs1
         in if diff \<ge> 0 \<and> diff < blkScannerHysteresis
            then notify e (bs1 \<lparr> state := blkIsIdling \<rparr>)
            else bs1)
      else bs)"

definition checkIdle :: "env \<Rightarrow> blkScanner \<Rightarrow> blkScanner" where
  "checkIdle e bs =
     (if state bs \<noteq> blkIsIdling then bs
      else
        (let diff = target bs - current bs
         in if diff > blkScannerHysteresis
            then notify e (bs \<lparr> state := blkIsScanning \<rparr>)
            else bs))"

text \<open>One pass through the body of the \<open>for\<close> loop that does not take the stop case.\<close>

definition iteration :: "env \<Rightarrow> blkScanner \<Rightarrow> blkScanner" where
  "iteration e bs = checkIdle e (checkTarget e (scanNext e (select_case e bs)))"

text \<open>The deferred function of \<open>run\<close>; stopping the tickers leaves the scanner as it is.\<close>

definition deferred :: "blkScanner \<Rightarrow> blkScanner" where
  "deferred bs = bs \<lparr> closedCalls := closedCalls bs + 1 \<rparr>"

text \<open>\<open>run\<close> along a finite sequence of environment choices, one per iteration. The first
  component of the result says whether \<open>run\<close> has returned; when the choices are used up
  before a stop case was taken the loop is still going.\<close>

fun run :: "env list \<Rightarrow> blkScanner \<Rightarrow> bool \<times> blkScanner" where
  "run [] bs = (False, bs)"
| "run (e # es) bs =
     (if sel e = SelStop then (True, deferred (select_case e bs))
      else run es (iteration e bs))"

text \<open>\<open>close\<close> sends on \<open>sigStop\<close>; with the slot occupied the sender would block.\<close>

definition close :: "blkScanner \<Rightarrow> blkScanner option" where
  "close bs = (if sigStop bs then None else Some (bs \<lparr> sigStop := True \<rparr>))"

subsection \<open>Auxiliary notions for the statements\<close>

definition heights :: "blkScanner \<Rightarrow> nat list" where
  "heights bs = map number (outBlocks bs)"

text \<open>The contract of \<open>PullHeader\<close>: a header it returns is the one of the requested
  height.\<close>

definition pull_contract :: "env \<Rightarrow> bool" where
  "pull_contract e = (\<forall>n h. PullHeader e n = Inr h \<longrightarrow> number h = unat n)"

text \<open>An iteration fast-forwards when its first select moves \<open>current\<close> to an observed
  block.\<close>

definition fast_forwards :: "env \<Rightarrow> blkScanner \<Rightarrow> bool" where
  "fast_forwards e bs =
     (case sel e of
        SelObserved bid \<Rightarrow> state bs = blkIsIdling \<and> bid > current bs
      | _ \<Rightarrow> False)"

fun no_fast_forward :: "env list \<Rightarrow> blkScanner \<Rightarrow> bool" where
  "no_fast_forward [] bs = True"
| "no_fast_forward (e # es) bs =
     (if sel e = SelStop then True
      else \<not> fast_forwards e bs \<and> no_fast_forward es (iteration e bs))"

text \<open>Which choices Go's \<open>select\<close> can make in a given scanner state: a receive from
  \<open>sigStop\<close> needs the slot occupied, \<open>default\<close> is taken only when no case is ready, and
  the 5 second timeout cannot win against a signal that is already there.\<close>

definition admissible :: "env \<Rightarrow> blkScanner \<Rightarrow> bool" where
  "admissible e bs =
     (if sel e = SelStop then sigStop bs
      else if sel e = SelDefault \<and> sigStop bs then False
      else if sigStop bs \<and> state (select_case e bs) = blkIsScanning
              \<and> current (select_case e bs) < target (select_case e bs)
              \<and> isl (PullHeader e (current (select_case e bs)))
           then scanSel e = ScanStop
      else True)"

fun admissible_run :: "env list \<Rightarrow> blkScanner \<Rightarrow> bool" where
  "admissible_run [] bs = True"
| "admissible_run (e # es) bs =
     (admissible e bs \<and> (if sel e = SelStop then True else admissible_run es (iteration e bs)))"

section \<open>Token names (internal/repository/token.go)\<close>

record token =
  Name :: string

text \<open>What \<open>p.db.GetToken\<close> does: it returns a pair of a token pointer and an error, either
  of which may be nil, or it panics.\<close>

datatype get_outcome =
    GetReturns "token option" "error option"
  | GetPanics

datatype panic = NilPointerDereference

text \<open>The function passed to \<open>callGroup.Do\<close> in \<open>Token\<close>. Its deferred function recovers
  from a panic, after which the function returns the zero values of its results.\<close>

definition Token_load :: "get_outcome \<Rightarrow> token option \<times> error option" where
  "Token_load g =
     (case g of
        GetPanics \<Rightarrow> (None, None)
      | GetReturns t e \<Rightarrow>
          if e \<noteq> None then (None, e)
          else if t = None then (None, None)
          else (t, None))"

definition Token :: "get_outcome \<Rightarrow> token option \<times> error option" where
  "Token g =
     (let (token, err) = Token_load g
      in if err \<noteq> None then (None, err)
         else if token = None then (None, None)
         else (token, err))"

text \<open>\<open>MustTokenName\<close>, given the outcome of the database read and the text
  \<open>tokenID.String()\<close>. The field access \<open>t.Name\<close> on a nil pointer panics.\<close>

definition MustTokenName :: "get_outcome \<Rightarrow> string \<Rightarrow> panic + string" where
  "MustTokenName g tokenID_String =
     (let (t, err) = Token g
      in if err \<noteq> None then Inr tokenID_String
         else (case t of
                 None \<Rightarrow> Inl NilPointerDereference
               | Some tk \<Rightarrow> if Name tk = [] then Inr tokenID_String else Inr (Name tk)))"

section \<open>Further notions used in the statements\<close>

text \<open>The header \<open>PullHeader\<close> returns for a height when the call succeeds.\<close>

definition hdr_of :: "u64 \<Rightarrow> error + header" where
  "hdr_of n = Inr \<lparr> number = unat n \<rparr>"

text \<open>Every emitted height lies below the cursor, and the emitted heights increase.\<close>

definition below_cursor :: "blkScanner \<Rightarrow> bool" where
  "below_cursor bs =
     (sorted_wrt (<) (heights bs) \<and> (\<forall>h \<in> set (heights bs). h < unat (current bs)))"

text \<open>An iteration in which no stop case is taken, \<open>CurrentHead\<close> reports \<open>h\<close>, the
  header is pulled successfully and the send on \<open>outBlocks\<close> goes through.\<close>

definition steady :: "u64 \<Rightarrow> env \<Rightarrow> bool" where
  "steady h e =
     (sel e \<noteq> SelStop \<and> tickHead e = Inr h \<and> checkHead e = Inr h
      \<and> PullHeader e = hdr_of \<and> scanSel e = ScanOther)"


text \<open>The cases of the first select that wait for something other than \<open>sigStop\<close>.\<close>

fun external_case :: "sel_case \<Rightarrow> bool" where
  "external_case SelTgTick = True"
| "external_case SelLogTick = True"
| "external_case (SelObserved bid) = True"
| "external_case SelStop = False"
| "external_case SelDefault = False"

section \<open>Concrete scanners, environments and runs\<close>

definition rpc_down :: error where
  "rpc_down = ''connection refused''"

text \<open>A fresh scanner put into a given state, with a given cursor and target.\<close>

definition scanner :: "blk_state \<Rightarrow> u64 \<Rightarrow> u64 \<Rightarrow> blkScanner" where
  "scanner st cur tgt = newBlkScanner \<lparr> state := st, current := cur, target := tgt \<rparr>"

text \<open>An iteration in which nothing is ready at the first select, the header is pulled
  and sent, and the head is \<open>h\<close>.\<close>

definition quiet :: "u64 \<Rightarrow> env" where
  "quiet h =
     \<lparr> sel = SelDefault, tickHead = Inr h, PullHeader = hdr_of, scanSel = ScanOther,
       checkHead = Inr h, listener = False \<rparr>"

text \<open>An iteration in which the header cannot be pulled and the wait times out.\<close>

definition failing :: env where
  "failing =
     \<lparr> sel = SelDefault, tickHead = Inr 9, PullHeader = (\<lambda>n. Inl rpc_down),
       scanSel = ScanOther, checkHead = Inr 9, listener = False \<rparr>"

text \<open>The same, but the stop signal arrives during the wait.\<close>

definition stop_in_wait :: env where
  "stop_in_wait = failing \<lparr> scanSel := ScanStop \<rparr>"

text \<open>Two headers are emitted, a failed head query and its repetition put the scanner to
  idle, an observed block moves the cursor, and scanning resumes from there.\<close>

definition gap_trace :: "env list" where
  "gap_trace =
     [quiet 7, quiet 7,
      (quiet 8) \<lparr> sel := SelTgTick, tickHead := Inl rpc_down \<rparr>,
      (quiet 8) \<lparr> sel := SelObserved 20 \<rparr>,
      (quiet 30) \<lparr> sel := SelTgTick \<rparr>]"

text \<open>Five iterations with the head at 16,005,003.\<close>

definition head_trace :: "env list" where
  "head_trace =
     [quiet 16005003, quiet 16005003, quiet 16005003, quiet 16005003, quiet 16005003]"

text \<open>The head query failed at initialisation; its repetition puts the scanner to idle
  before anything was emitted, and an observed block moves the cursor.\<close>

definition late_start_trace :: "env list" where
  "late_start_trace =
     [quiet 16000005,
      (quiet 16000005) \<lparr> sel := SelObserved 16000008 \<rparr>,
      (quiet 16000020) \<lparr> sel := SelTgTick \<rparr>]"

text \<open>The stop signal arrives during the wait after a failed fetch; at the next select
  the log ticker is ready as well and is taken, the fetch succeeds and the send wins
  against the stop case; the iteration after that takes the stop case.\<close>

definition late_stop_trace :: "env list" where
  "late_stop_trace =
     [stop_in_wait, (quiet 9) \<lparr> sel := SelLogTick \<rparr>, (quiet 9) \<lparr> sel := SelStop \<rparr>]"

section \<open>Properties of the block scanner\<close>

subsection \<open>Emitted heights\<close>

lemmas scanner_defs = quiet_def hdr_of_def init_def start_def top_bs_def newBlkScanner_def
  iteration_def select_case_def scanNext_def checkTarget_def checkIdle_def notify_def heights_def
  defStartingBlockNumber_def blkScannerHysteresis_def deferred_def

lemma notify_fields [simp]:
  "outBlocks (notify e bs) = outBlocks bs" "current (notify e bs) = current bs"
  "target (notify e bs) = target bs" "state (notify e bs) = state bs"
  "sigStop (notify e bs) = sigStop bs" "closedCalls (notify e bs) = closedCalls bs"
  by (simp_all add: notify_def)

lemma checkTarget_fields [simp]:
  "outBlocks (checkTarget e bs) = outBlocks bs" "current (checkTarget e bs) = current bs"
  "sigStop (checkTarget e bs) = sigStop bs" "closedCalls (checkTarget e bs) = closedCalls bs"
  by (simp_all add: checkTarget_def Let_def)

lemma checkIdle_fields [simp]:
  "outBlocks (checkIdle e bs) = outBlocks bs" "current (checkIdle e bs) = current bs"
  "target (checkIdle e bs) = target bs"
  "sigStop (checkIdle e bs) = sigStop bs" "closedCalls (checkIdle e bs) = closedCalls bs"
  by (simp_all add: checkIdle_def Let_def)

lemma select_case_outBlocks [simp]: "outBlocks (select_case e bs) = outBlocks bs"
  by (simp add: select_case_def split: sel_case.split)

lemma select_case_current:
  "\<not> fast_forwards e bs \<Longrightarrow> current (select_case e bs) = current bs"
  by (auto simp add: select_case_def fast_forwards_def split: sel_case.splits)

lemma select_case_current_le: "current bs \<le> current (select_case e bs)"
  by (auto simp add: select_case_def split: sel_case.split)

lemma word_succ_below: "(c::u64) < t \<Longrightarrow> unat (c + 1) = Suc (unat c)"
proof -
  assume "c < t"
  then have "unat c < unat t" by (simp add: word_less_nat_alt)
  moreover have "unat t < 2 ^ 64" using unsigned_less [of t] by simp
  ultimately have "unat c + 1 < 2 ^ 64" by simp
  then show ?thesis by (simp add: unat_word_ariths)
qed

lemma scanNext_cases:
  "(current (scanNext e bs) = current bs \<and> outBlocks (scanNext e bs) = outBlocks bs)
   \<or> (current bs < target bs \<and> state bs = blkIsScanning \<and> current (scanNext e bs) = current bs + 1
       \<and> (\<exists>hdr. PullHeader e (current bs) = Inr hdr \<and> outBlocks (scanNext e bs) = outBlocks bs @ [hdr]))"
  by (simp add: scanNext_def split: sum.split scan_case.split)

lemma iteration_cases:
  "(current (iteration e bs) = current (select_case e bs) \<and> outBlocks (iteration e bs) = outBlocks bs)
   \<or> (current (select_case e bs) < target (select_case e bs)
       \<and> state (select_case e bs) = blkIsScanning
       \<and> current (iteration e bs) = current (select_case e bs) + 1
       \<and> (\<exists>hdr. PullHeader e (current (select_case e bs)) = Inr hdr
              \<and> outBlocks (iteration e bs) = outBlocks bs @ [hdr]))"
  using scanNext_cases [of e "select_case e bs"] by (simp add: iteration_def)

lemma deferred_current [simp]: "current (deferred bs) = current bs"
  by (simp add: deferred_def)

lemma below_cursor_iteration:
  assumes "pull_contract e" and "below_cursor bs"
  shows "below_cursor (iteration e bs)"
proof -
  let ?c = "current (select_case e bs)"
  have le: "unat (current bs) \<le> unat ?c"
    using select_case_current_le [of bs e] by (simp add: word_le_nat_alt)
  from iteration_cases [of e bs] show ?thesis
  proof (elim disjE conjE exE)
    assume "current (iteration e bs) = ?c" "outBlocks (iteration e bs) = outBlocks bs"
    with assms(2) le show ?thesis
      by (fastforce simp add: below_cursor_def heights_def)
  next
    fix hdr
    assume lt: "?c < target (select_case e bs)"
      and cur: "current (iteration e bs) = ?c + 1"
      and pull: "PullHeader e ?c = Inr hdr"
      and out: "outBlocks (iteration e bs) = outBlocks bs @ [hdr]"
    from pull assms(1) have num: "number hdr = unat ?c"
      by (simp add: pull_contract_def)
    from lt have suc: "unat (?c + 1) = Suc (unat ?c)" by (rule word_succ_below)
    from assms(2) le num suc cur out show ?thesis
      by (fastforce simp add: below_cursor_def heights_def sorted_wrt_append)
  qed
qed

lemma below_cursor_run:
  "\<forall>e \<in> set es. pull_contract e \<Longrightarrow> below_cursor bs \<Longrightarrow> below_cursor (snd (run es bs))"
proof (induction es arbitrary: bs)
  case Nil
  then show ?case by simp
next
  case (Cons e es)
  show ?case
  proof (cases "sel e = SelStop")
    case True
    with Cons.prems(2) show ?thesis
      by (simp add: below_cursor_def heights_def deferred_def select_case_def)
  next
    case False
    with Cons show ?thesis by (simp add: below_cursor_iteration)
  qed
qed

lemma iteration_consecutive:
  assumes "pull_contract e" and "\<not> fast_forwards e bs"
  shows "heights (iteration e bs)
           = heights bs @ [unat (current bs) ..< unat (current (iteration e bs))]
         \<and> unat (current bs) \<le> unat (current (iteration e bs))"
proof -
  have c: "current (select_case e bs) = current bs"
    using assms(2) by (rule select_case_current)
  from iteration_cases [of e bs] show ?thesis
  proof (elim disjE conjE exE)
    assume "current (iteration e bs) = current (select_case e bs)"
      "outBlocks (iteration e bs) = outBlocks bs"
    with c show ?thesis by (simp add: heights_def)
  next
    fix hdr
    assume lt: "current (select_case e bs) < target (select_case e bs)"
      and cur: "current (iteration e bs) = current (select_case e bs) + 1"
      and pull: "PullHeader e (current (select_case e bs)) = Inr hdr"
      and out: "outBlocks (iteration e bs) = outBlocks bs @ [hdr]"
    from pull assms(1) c have num: "number hdr = unat (current bs)"
      by (simp add: pull_contract_def)
    from lt c have suc: "unat (current bs + 1) = Suc (unat (current bs))"
      using word_succ_below by metis
    from num suc cur out c show ?thesis by (simp add: heights_def)
  qed
qed

lemma run_consecutive:
  "\<forall>e \<in> set es. pull_contract e \<Longrightarrow> no_fast_forward es bs \<Longrightarrow>
     heights (snd (run es bs))
       = heights bs @ [unat (current bs) ..< unat (current (snd (run es bs)))]
     \<and> unat (current bs) \<le> unat (current (snd (run es bs)))"
proof (induction es arbitrary: bs)
  case Nil
  then show ?case by simp
next
  case (Cons e es)
  show ?case
  proof (cases "sel e = SelStop")
    case True
    then show ?thesis by (simp add: heights_def select_case_def deferred_def)
  next
    case False
    let ?b = "iteration e bs"
    from False Cons.prems have ff: "\<not> fast_forwards e bs" and nff: "no_fast_forward es ?b"
      and pc: "pull_contract e" and pcs: "\<forall>e \<in> set es. pull_contract e"
      by simp_all
    note one = iteration_consecutive [OF pc ff]
    note rest = Cons.IH [OF pcs nff]
    from one rest have
      "[unat (current bs) ..< unat (current ?b)] @ [unat (current ?b) ..< unat (current (snd (run es ?b)))]
         = [unat (current bs) ..< unat (current (snd (run es ?b)))]"
      by (metis le_Suc_ex upt_add_eq_append)
    with one rest False show ?thesis by simp
  qed
qed

text \<open>
  Claim C1, as amended. Take any run of the scanner from its initial state in which a
  header returned by \<open>PullHeader\<close> is the header of the requested height (in particular
  any run in which every \<open>PullHeader\<close> call succeeds). The heights sent on
  \<open>outBlocks\<close> are strictly increasing. If moreover no iteration of the run fast-forwards
  the cursor to an observed block, the heights have no gaps, each one being the previous one
  plus one, and the first of them is the starting checkpoint resolved at initialisation.
\<close>

theorem emitted_heights_increasing:
  assumes "\<forall>e \<in> set es. pull_contract e"
    and "bs' = snd (run es (init lastSeen head))"
  shows "sorted_wrt (<) (heights bs')
         \<and> (no_fast_forward es (init lastSeen head) \<longrightarrow>
              heights bs' = [unat (start lastSeen) ..< unat (start lastSeen) + length (heights bs')]
              \<and> (heights bs' \<noteq> [] \<longrightarrow> hd (heights bs') = unat (start lastSeen)))"
proof -
  let ?s = "init lastSeen head"
  have h0: "heights ?s = []" and c0: "current ?s = start lastSeen"
    by (simp_all add: init_def newBlkScanner_def heights_def)
  then have "below_cursor ?s" by (simp add: below_cursor_def)
  with assms have inc: "sorted_wrt (<) (heights bs')"
    using below_cursor_run [of es ?s] by (simp add: below_cursor_def)
  have "heights bs' = [unat (start lastSeen) ..< unat (start lastSeen) + length (heights bs')]
        \<and> (heights bs' \<noteq> [] \<longrightarrow> hd (heights bs') = unat (start lastSeen))"
    if "no_fast_forward es ?s"
  proof -
    from run_consecutive [OF assms(1) that] h0 c0 assms(2)
    have eq: "heights bs' = [unat (start lastSeen) ..< unat (current bs')]"
      and le: "unat (start lastSeen) \<le> unat (current bs')"
      by simp_all
    from le have "[unat (start lastSeen) ..< unat (current bs')]
        = [unat (start lastSeen) ..< unat (start lastSeen) + length [unat (start lastSeen) ..< unat (current bs')]]"
      by simp
    then have len: "heights bs'
        = [unat (start lastSeen) ..< unat (start lastSeen) + length (heights bs')]"
      using eq by simp
    have "hd (heights bs') = unat (start lastSeen)" if "heights bs' \<noteq> []"
    proof -
      from that eq have "unat (start lastSeen) < unat (current bs')" by simp
      with eq show ?thesis by (simp add: upt_conv_Cons)
    qed
    with len show ?thesis by simp
  qed
  with inc show ?thesis by simp
qed

theorem emitted_heights_increasing_witness:
  "pull_contract (quiet 7)
   \<and> no_fast_forward [quiet 7, quiet 7, quiet 7] (init (Inr 5) (Inr 7))
   \<and> sorted_wrt (<) (heights (snd (run [quiet 7, quiet 7, quiet 7] (init (Inr 5) (Inr 7)))))
   \<and> heights (snd (run [quiet 7, quiet 7, quiet 7] (init (Inr 5) (Inr 7)))) = [5, 6]
   \<and> hd (heights (snd (run [quiet 7, quiet 7, quiet 7] (init (Inr 5) (Inr 7))))) = unat (start (Inr 5))"
proof -
  have pc: "pull_contract (quiet 7)"
    by (auto simp add: pull_contract_def quiet_def hdr_of_def)
  have r: "heights (snd (run [quiet 7, quiet 7, quiet 7] (init (Inr 5) (Inr 7)))) = [5, 6]"
    by (simp add: quiet_def hdr_of_def init_def start_def top_bs_def newBlkScanner_def
        iteration_def select_case_def scanNext_def checkTarget_def checkIdle_def heights_def
        defStartingBlockNumber_def)
  have nf: "no_fast_forward [quiet 7, quiet 7, quiet 7] (init (Inr 5) (Inr 7))"
    by (simp add: quiet_def fast_forwards_def)
  from emitted_heights_increasing [of "[quiet 7, quiet 7, quiet 7]" _ "Inr 5" "Inr 7", OF _ refl]
    pc nf r show ?thesis by simp
qed

text \<open>
  Without the restriction the heights can have a gap, although every \<open>PullHeader\<close> call
  succeeds: in the run \<open>gap_trace\<close> the scanner emits 5 and 6, idles, is moved to 20 by an
  observed block and resumes there. Every choice of the run is one Go's select can make.
\<close>

theorem gap_after_idle_counterexample:
  "admissible_run gap_trace (init (Inr 5) (Inr 7))
   \<and> heights (snd (run gap_trace (init (Inr 5) (Inr 7)))) = [5, 6, 20]"
  by (simp add: gap_trace_def admissible_def scanner_defs)

subsection \<open>A head that does not move\<close>

lemma steady_iteration:
  assumes "steady h e" and "state bs = blkIsScanning" and "target bs = h" and "current bs \<le> h"
  shows "state (iteration e bs) = blkIsScanning \<and> target (iteration e bs) = h
         \<and> current (iteration e bs) \<le> h
         \<and> unat (current (iteration e bs)) = min (Suc (unat (current bs))) (unat h)
         \<and> heights (iteration e bs) = heights bs @ [unat (current bs) ..< unat (current (iteration e bs))]"
proof -
  let ?b = "select_case e bs"
  from assms have sc: "state ?b = blkIsScanning" "target ?b = h" "current ?b = current bs"
    "outBlocks ?b = outBlocks bs"
    by (auto simp add: steady_def select_case_def top_bs_def split: sel_case.splits)
  show ?thesis
  proof (cases "current bs < h")
    case True
    then have suc: "unat (current bs + 1) = Suc (unat (current bs))" by (rule word_succ_below)
    from True have le: "current bs + 1 \<le> h" by (rule inc_le)
    then have not_gt: "\<not> h < current bs + 1" by simp
    from True have "Suc (unat (current bs)) \<le> unat h" by (simp add: word_less_nat_alt)
    with True sc assms(1) suc le not_gt show ?thesis
      by (simp add: iteration_def scanNext_def checkTarget_def checkIdle_def steady_def
          hdr_of_def heights_def)
  next
    case False
    with assms(4) have eq: "current bs = h" by simp
    with sc show ?thesis
      by (simp add: iteration_def scanNext_def checkTarget_def checkIdle_def heights_def)
  qed
qed

lemma steady_run:
  "\<forall>e \<in> set es. steady h e \<Longrightarrow> state bs = blkIsScanning \<Longrightarrow> target bs = h \<Longrightarrow> current bs \<le> h \<Longrightarrow>
     \<not> fst (run es bs) \<and> state (snd (run es bs)) = blkIsScanning
     \<and> heights (snd (run es bs))
         = heights bs @ [unat (current bs) ..< min (unat (current bs) + length es) (unat h)]"
proof (induction es arbitrary: bs)
  case Nil
  then show ?case by simp
next
  case (Cons e es)
  let ?b = "iteration e bs"
  from Cons.prems have st: "steady h e" and sts: "\<forall>e \<in> set es. steady h e" by simp_all
  note one = steady_iteration [OF st Cons.prems(2,3,4)]
  from one have ih: "\<not> fst (run es ?b) \<and> state (snd (run es ?b)) = blkIsScanning
     \<and> heights (snd (run es ?b))
         = heights ?b @ [unat (current ?b) ..< min (unat (current ?b) + length es) (unat h)]"
    using Cons.IH [OF sts, of ?b] by simp
  from Cons.prems(4) have le: "unat (current bs) \<le> unat h" by (simp add: word_le_nat_alt)
  from one have cur: "unat (current ?b) = min (Suc (unat (current bs))) (unat h)" by simp
  have "[unat (current bs) ..< unat (current ?b)]
          @ [unat (current ?b) ..< min (unat (current ?b) + length es) (unat h)]
        = [unat (current bs) ..< min (unat (current bs) + length (e # es)) (unat h)]"
  proof (cases "unat (current bs) < unat h")
    case True
    with cur have c: "unat (current ?b) = Suc (unat (current bs))" by simp
    from True have "[unat (current bs) ..< min (unat (current bs) + length (e # es)) (unat h)]
        = unat (current bs) # [Suc (unat (current bs)) ..< min (unat (current bs) + length (e # es)) (unat h)]"
      by (simp add: upt_conv_Cons)
    with c show ?thesis by simp
  next
    case False
    with le cur show ?thesis by simp
  qed
  with one ih st show ?case by (simp add: steady_def)
qed

text \<open>
  Claim C2, as amended. The checkpoint is 16,005,000 and \<open>CurrentHead\<close> constantly
  reports 16,005,003 (the hysteresis is the constant 10); every header is pulled and sent
  and no stop case is taken. Then after any number \<open>n\<close> of iterations the heights sent are
  those from 16,005,000 up to, and not including, the smaller of 16,005,000 + \<open>n\<close> and
  16,005,003: the scanner emits 16,005,000 through 16,005,002, the heights below the head,
  and then nothing more.
\<close>

theorem head_stays_emits_below_head:
  assumes "\<forall>e \<in> set es. steady 16005003 e"
  shows "heights (snd (run es (init (Inr 16005000) (Inr 16005003))))
           = [16005000 ..< min (16005000 + length es) 16005003]"
proof -
  let ?s = "init (Inr 16005000) (Inr 16005003)"
  have "state ?s = blkIsScanning" "target ?s = 16005003" "current ?s \<le> 16005003"
    "heights ?s = []" "unat (current ?s) = 16005000"
    by (simp_all add: init_def newBlkScanner_def start_def top_bs_def heights_def)
  with steady_run [OF assms, of ?s] show ?thesis by simp
qed

theorem head_stays_emits_below_head_witness:
  "steady 16005003 (quiet 16005003)
   \<and> heights (snd (run head_trace (init (Inr 16005000) (Inr 16005003))))
       = [16005000, 16005001, 16005002]"
proof -
  have st: "steady 16005003 (quiet 16005003)" by (simp add: steady_def quiet_def)
  have "[16005000 ..< 16005003] = [16005000, 16005001, 16005002::nat]"
    by (simp add: upt_rec)
  with head_stays_emits_below_head [of head_trace] st
  show ?thesis by (simp add: head_trace_def)
qed

text \<open>
  In this scenario the height 16,005,003 is not sent and the scanner is not idling: after
  five iterations, two of them past the last emission, it is still in the scanning state.
\<close>

theorem head_stays_no_idling_counterexample:
  "heights (snd (run head_trace (init (Inr 16005000) (Inr 16005003))))
       = [16005000, 16005001, 16005002]
   \<and> state (snd (run head_trace (init (Inr 16005000) (Inr 16005003))))
       = blkIsScanning"
  by (simp add: head_trace_def quiet_def hdr_of_def init_def start_def top_bs_def newBlkScanner_def
        iteration_def select_case_def scanNext_def checkTarget_def checkIdle_def heights_def)

subsection \<open>The hysteresis band\<close>

text \<open>
  Claim C3. Here \<open>diff\<close> is the value the code computes, the difference \<open>target - current\<close>
  of two unsigned 64-bit numbers. In the scanning state with \<open>current > target\<close>,
  \<open>checkTarget\<close> fetches the target again and moves to idling exactly when \<open>diff\<close> is at
  least 0 and below the hysteresis; in the idling state \<open>checkIdle\<close> moves back to scanning
  exactly when \<open>diff\<close> is above the hysteresis. With \<open>diff\<close> equal to the hysteresis
  neither transition fires, and a transition to idling is not undone by the \<open>checkIdle\<close>
  that follows it.
\<close>

theorem hysteresis_band:
  "(state bs = blkIsScanning \<and> target bs < current bs \<longrightarrow>
      target (checkTarget e bs) = top_bs (checkHead e)
      \<and> (state (checkTarget e bs) = blkIsIdling \<longleftrightarrow>
           0 \<le> top_bs (checkHead e) - current bs
           \<and> top_bs (checkHead e) - current bs < blkScannerHysteresis)
      \<and> (top_bs (checkHead e) - current bs = blkScannerHysteresis \<longrightarrow>
           state (checkTarget e bs) = blkIsScanning)
      \<and> (state (checkTarget e bs) = blkIsIdling \<longrightarrow>
           state (checkIdle e (checkTarget e bs)) = blkIsIdling))
   \<and> (state bs = blkIsIdling \<longrightarrow>
      (state (checkIdle e bs) = blkIsScanning \<longleftrightarrow>
           blkScannerHysteresis < target bs - current bs)
      \<and> (target bs - current bs = blkScannerHysteresis \<longrightarrow>
           state (checkIdle e bs) = blkIsIdling))"
  by (auto simp add: checkTarget_def checkIdle_def notify_def Let_def)

theorem hysteresis_band_witness:
  "state (scanner blkIsScanning 100 90) = blkIsScanning
   \<and> target (scanner blkIsScanning 100 90) < current (scanner blkIsScanning 100 90)
   \<and> top_bs (checkHead (quiet 105)) - current (scanner blkIsScanning 100 90) < blkScannerHysteresis
   \<and> state (checkTarget (quiet 105) (scanner blkIsScanning 100 90)) = blkIsIdling
   \<and> state (checkIdle (quiet 105) (checkTarget (quiet 105) (scanner blkIsScanning 100 90))) = blkIsIdling
   \<and> top_bs (checkHead (quiet 110)) - current (scanner blkIsScanning 100 90) = blkScannerHysteresis
   \<and> state (checkTarget (quiet 110) (scanner blkIsScanning 100 90)) = blkIsScanning
   \<and> state (scanner blkIsIdling 100 111) = blkIsIdling
   \<and> blkScannerHysteresis < target (scanner blkIsIdling 100 111) - current (scanner blkIsIdling 100 111)
   \<and> state (checkIdle (quiet 111) (scanner blkIsIdling 100 111)) = blkIsScanning
   \<and> target (scanner blkIsIdling 100 110) - current (scanner blkIsIdling 100 110) = blkScannerHysteresis
   \<and> state (checkIdle (quiet 110) (scanner blkIsIdling 100 110)) = blkIsIdling"
  using hysteresis_band [of "scanner blkIsScanning 100 90" "quiet 105"]
    hysteresis_band [of "scanner blkIsScanning 100 90" "quiet 110"]
    hysteresis_band [of "scanner blkIsIdling 100 111" "quiet 111"]
    hysteresis_band [of "scanner blkIsIdling 100 110" "quiet 110"]
  by (simp add: scanner_def newBlkScanner_def quiet_def top_bs_def blkScannerHysteresis_def
      checkTarget_def checkIdle_def notify_def)

subsection \<open>Observed blocks\<close>

lemma sel_irrelevant:
  "scanNext (e \<lparr> sel := x \<rparr>) bs = scanNext e bs"
  "checkTarget (e \<lparr> sel := x \<rparr>) bs = checkTarget e bs"
  "checkIdle (e \<lparr> sel := x \<rparr>) bs = checkIdle e bs"
  by (simp_all add: scanNext_def checkTarget_def checkIdle_def notify_def Let_def
      split: sum.split scan_case.split)

lemma iteration_default:
  "iteration (e \<lparr> sel := SelDefault \<rparr>) bs = checkIdle e (checkTarget e (scanNext e bs))"
  by (simp add: iteration_def sel_irrelevant select_case_def)

lemma iteration_idle_current:
  "state bs = blkIsIdling \<Longrightarrow> current (iteration e bs) = current (select_case e bs)"
  by (simp add: iteration_def scanNext_def select_case_def split: sel_case.split)

text \<open>
  Claim C4. Let the first select receive the height \<open>bid\<close> from \<open>inObservedBlocks\<close>. If
  the scanner is idling and \<open>bid\<close> is above \<open>current\<close>, then \<open>current\<close> becomes \<open>bid\<close>,
  and it still is \<open>bid\<close> at the end of the iteration. If \<open>bid\<close> is at most \<open>current\<close>,
  or the scanner is scanning, the signal changes nothing: the scanner is as before after
  the select, and the iteration ends as it would have with nothing received.
\<close>

theorem observed_block_signal:
  assumes "sel e = SelObserved bid"
  shows "(state bs = blkIsIdling \<and> current bs < bid \<longrightarrow>
            current (select_case e bs) = bid \<and> current (iteration e bs) = bid)
       \<and> (bid \<le> current bs \<or> state bs = blkIsScanning \<longrightarrow>
            select_case e bs = bs \<and> iteration e bs = iteration (e \<lparr> sel := SelDefault \<rparr>) bs)"
proof (intro conjI impI)
  assume a: "state bs = blkIsIdling \<and> current bs < bid"
  with assms show "current (select_case e bs) = bid" by (simp add: select_case_def)
  with a show "current (iteration e bs) = bid" by (simp add: iteration_idle_current)
next
  assume "bid \<le> current bs \<or> state bs = blkIsScanning"
  with assms show same: "select_case e bs = bs" by (auto simp add: select_case_def)
  show "iteration e bs = iteration (e \<lparr> sel := SelDefault \<rparr>) bs"
    unfolding iteration_default by (simp only: iteration_def same)
qed

theorem observed_block_signal_witness:
  "sel ((quiet 30) \<lparr> sel := SelObserved 25 \<rparr>) = SelObserved 25
   \<and> state (scanner blkIsIdling 20 22) = blkIsIdling
   \<and> current (scanner blkIsIdling 20 22) < 25
   \<and> current (iteration ((quiet 30) \<lparr> sel := SelObserved 25 \<rparr>) (scanner blkIsIdling 20 22)) = 25
   \<and> state (scanner blkIsScanning 20 22) = blkIsScanning
   \<and> select_case ((quiet 30) \<lparr> sel := SelObserved 25 \<rparr>) (scanner blkIsScanning 20 22)
       = scanner blkIsScanning 20 22"
  using observed_block_signal [of "(quiet 30) \<lparr> sel := SelObserved 25 \<rparr>" 25 "scanner blkIsIdling 20 22"]
    observed_block_signal [of "(quiet 30) \<lparr> sel := SelObserved 25 \<rparr>" 25 "scanner blkIsScanning 20 22"]
  by (simp add: scanner_def newBlkScanner_def quiet_def)

subsection \<open>The starting height\<close>

text \<open>
  Claim C5, as amended. \<open>start\<close> is 0 when \<open>LastSeenBlockNumber\<close> returns an error,
  the default 16,000,000 when it returns 0, and the returned value otherwise; \<open>top\<close> is 0
  when \<open>CurrentHead\<close> returns an error; \<open>init\<close> stores the two in \<open>current\<close> and
  \<open>target\<close>. When \<open>LastSeenBlockNumber\<close> returned 0, the first height sent is
  16,000,000 in every run in which no iteration fast-forwards the cursor to an observed
  block (and \<open>PullHeader\<close> returns the header of the height asked for).
\<close>

theorem starting_height:
  "start (Inl err) = 0
   \<and> start (Inr 0) = defStartingBlockNumber \<and> defStartingBlockNumber = 16000000
   \<and> (lnb \<noteq> 0 \<longrightarrow> start (Inr lnb) = lnb)
   \<and> top_bs (Inl err') = 0
   \<and> current (init lastSeen head) = start lastSeen
   \<and> target (init lastSeen head) = top_bs head
   \<and> ((\<forall>e \<in> set es. pull_contract e) \<and> no_fast_forward es (init (Inr 0) head)
        \<and> heights (snd (run es (init (Inr 0) head))) \<noteq> [] \<longrightarrow>
          hd (heights (snd (run es (init (Inr 0) head)))) = 16000000)"
proof -
  let ?s = "init (Inr 0) head"
  have "hd (heights (snd (run es ?s))) = 16000000"
    if pc: "\<forall>e \<in> set es. pull_contract e" and nf: "no_fast_forward es ?s"
      and ne: "heights (snd (run es ?s)) \<noteq> []"
  proof -
    have "heights ?s = []" "unat (current ?s) = 16000000"
      by (simp_all add: init_def newBlkScanner_def heights_def start_def defStartingBlockNumber_def)
    with run_consecutive [OF pc nf]
    have eq: "heights (snd (run es ?s)) = [16000000 ..< unat (current (snd (run es ?s)))]"
      by simp
    with ne have "16000000 < unat (current (snd (run es ?s)))" by simp
    with eq show ?thesis by (simp add: upt_conv_Cons)
  qed
  then show ?thesis
    by (simp add: start_def top_bs_def init_def newBlkScanner_def defStartingBlockNumber_def)
qed

theorem starting_height_witness:
  "(7::u64) \<noteq> 0 \<and> start (Inr 7) = 7
   \<and> pull_contract (quiet 16000002)
   \<and> no_fast_forward [quiet 16000002, quiet 16000002] (init (Inr 0) (Inr 16000002))
   \<and> heights (snd (run [quiet 16000002, quiet 16000002] (init (Inr 0) (Inr 16000002)))) \<noteq> []
   \<and> hd (heights (snd (run [quiet 16000002, quiet 16000002] (init (Inr 0) (Inr 16000002))))) = 16000000"
proof -
  have pc: "pull_contract (quiet 16000002)"
    by (auto simp add: pull_contract_def quiet_def hdr_of_def)
  have nf: "no_fast_forward [quiet 16000002, quiet 16000002] (init (Inr 0) (Inr 16000002))"
    by (simp add: quiet_def fast_forwards_def)
  have ne: "heights (snd (run [quiet 16000002, quiet 16000002] (init (Inr 0) (Inr 16000002)))) \<noteq> []"
    by (simp add: scanner_defs)
  from starting_height [where lnb = 7 and es = "[quiet 16000002, quiet 16000002]"
      and head = "Inr 16000002"] pc nf ne
  show ?thesis by simp
qed

text \<open>
  Without the restriction the first height sent can differ from the default: in the run
  \<open>late_start_trace\<close> the head query failed at initialisation, the scanner idles before it
  has sent anything, an observed block moves the cursor to 16,000,008, and that is the first
  height sent.
\<close>

theorem first_height_after_idle_counterexample:
  "admissible_run late_start_trace (init (Inr 0) (Inl rpc_down))
   \<and> start (Inr 0) = 16000000
   \<and> heights (snd (run late_start_trace (init (Inr 0) (Inl rpc_down)))) = [16000008]"
  by (simp add: late_start_trace_def admissible_def scanner_defs)

subsection \<open>Fetch failures\<close>






subsection \<open>The stop signal\<close>

lemma closedCalls_iteration [simp]: "closedCalls (iteration e bs) = closedCalls bs"
  by (simp add: iteration_def scanNext_def select_case_def
      split: sum.split scan_case.split sel_case.split)

lemma closedCalls_run:
  "closedCalls (snd (run tr bs)) = closedCalls bs + (if fst (run tr bs) then 1 else 0)"
  by (induction tr arbitrary: bs) (simp_all add: deferred_def select_case_def)

lemma stop_case_in_scanNext:
  assumes "scanSel e = ScanStop" and "state bs = blkIsScanning" and "current bs < target bs"
  shows "checkIdle e (checkTarget e (scanNext e bs)) = bs \<lparr> sigStop := True \<rparr>"
proof -
  from assms have "scanNext e bs = bs \<lparr> sigStop := True \<rparr>"
    by (simp add: scanNext_def split: sum.split)
  moreover from assms(3) have "\<not> target bs < current bs" by simp
  ultimately show ?thesis using assms(2) by (simp add: checkTarget_def checkIdle_def)
qed

lemma stop_must_be_taken:
  "sigStop bs \<Longrightarrow> admissible e bs \<Longrightarrow> \<not> external_case (sel e) \<Longrightarrow> sel e = SelStop"
  by (cases "sel e") (simp_all add: admissible_def)

text \<open>
  Claim C7, as amended. Let the scanner be in the blocking part of \<open>scanNext\<close> (scanning,
  below the target), waiting after a failed fetch or waiting to send a header, and let the
  select there take the stop case. Then that iteration sends no header and leaves the stop
  slot occupied. If the select at the top of the next iteration takes no ticker and no
  observed block, it takes the stop case: \<open>run\<close> returns, no further header has been
  sent, and \<open>mgr.closed\<close> has been invoked once. In any run \<open>mgr.closed\<close> is invoked
  exactly once if \<open>run\<close> returns and not at all before.
\<close>

theorem stop_during_scan:
  assumes "sel e1 \<noteq> SelStop" and "scanSel e1 = ScanStop"
    and "state (select_case e1 bs) = blkIsScanning"
    and "current (select_case e1 bs) < target (select_case e1 bs)"
  shows "sigStop (iteration e1 bs) \<and> outBlocks (iteration e1 bs) = outBlocks bs
       \<and> (admissible e2 (iteration e1 bs) \<and> \<not> external_case (sel e2) \<longrightarrow>
            fst (run (e1 # e2 # es) bs)
            \<and> outBlocks (snd (run (e1 # e2 # es) bs)) = outBlocks bs
            \<and> closedCalls (snd (run (e1 # e2 # es) bs)) = closedCalls bs + 1)
       \<and> closedCalls (snd (run tr bs)) = closedCalls bs + (if fst (run tr bs) then 1 else 0)"
proof -
  let ?b = "iteration e1 bs"
  have it: "?b = (select_case e1 bs) \<lparr> sigStop := True \<rparr>"
    unfolding iteration_def using assms(2,3,4) by (rule stop_case_in_scanNext)
  then have armed: "sigStop ?b" and out: "outBlocks ?b = outBlocks bs" by simp_all
  have "fst (run (e1 # e2 # es) bs)
        \<and> outBlocks (snd (run (e1 # e2 # es) bs)) = outBlocks bs
        \<and> closedCalls (snd (run (e1 # e2 # es) bs)) = closedCalls bs + 1"
    if "admissible e2 ?b" and "\<not> external_case (sel e2)"
  proof -
    from armed that have "sel e2 = SelStop" by (rule stop_must_be_taken)
    with assms(1) out show ?thesis by (simp add: deferred_def select_case_def)
  qed
  with armed out closedCalls_run [of tr bs] show ?thesis by blast
qed

theorem stop_during_scan_witness:
  "sel stop_in_wait \<noteq> SelStop \<and> scanSel stop_in_wait = ScanStop
   \<and> state (select_case stop_in_wait (init (Inr 5) (Inr 9))) = blkIsScanning
   \<and> current (select_case stop_in_wait (init (Inr 5) (Inr 9)))
       < target (select_case stop_in_wait (init (Inr 5) (Inr 9)))
   \<and> sigStop (iteration stop_in_wait (init (Inr 5) (Inr 9)))
   \<and> admissible ((quiet 9) \<lparr> sel := SelStop \<rparr>) (iteration stop_in_wait (init (Inr 5) (Inr 9)))
   \<and> \<not> external_case (sel ((quiet 9) \<lparr> sel := SelStop \<rparr>))
   \<and> fst (run [stop_in_wait, (quiet 9) \<lparr> sel := SelStop \<rparr>] (init (Inr 5) (Inr 9)))
   \<and> outBlocks (snd (run [stop_in_wait, (quiet 9) \<lparr> sel := SelStop \<rparr>] (init (Inr 5) (Inr 9)))) = []
   \<and> closedCalls (snd (run [stop_in_wait, (quiet 9) \<lparr> sel := SelStop \<rparr>] (init (Inr 5) (Inr 9)))) = 1"
proof -
  let ?s = "init (Inr 5) (Inr 9)"
  have h: "sel stop_in_wait \<noteq> SelStop" "scanSel stop_in_wait = ScanStop"
    "state (select_case stop_in_wait ?s) = blkIsScanning"
    "current (select_case stop_in_wait ?s) < target (select_case stop_in_wait ?s)"
    by (simp_all add: stop_in_wait_def failing_def scanner_defs)
  have o: "outBlocks ?s = []" "closedCalls ?s = 0"
    by (simp_all add: scanner_defs)
  have a: "admissible ((quiet 9) \<lparr> sel := SelStop \<rparr>) (iteration stop_in_wait ?s)"
    by (simp add: admissible_def stop_in_wait_def failing_def scanner_defs)
  have x: "\<not> external_case (sel ((quiet 9) \<lparr> sel := SelStop \<rparr>))"
    by (simp add: quiet_def)
  from stop_during_scan [OF h, of "(quiet 9) \<lparr> sel := SelStop \<rparr>" "[]" "[]"] h o a x
  show ?thesis by simp
qed

text \<open>
  When a ticker is ready at the top of the next iteration, Go's select may take it instead
  of the stop case, and a further header can be sent before the loop terminates: in the run
  \<open>late_stop_trace\<close> the stop signal is back in its slot after the first iteration, nothing
  has been sent, and the run returns having sent the header of height 5.
\<close>

theorem header_after_stop_counterexample:
  "admissible_run late_stop_trace (init (Inr 5) (Inr 9))
   \<and> sigStop (iteration stop_in_wait (init (Inr 5) (Inr 9)))
   \<and> heights (iteration stop_in_wait (init (Inr 5) (Inr 9))) = []
   \<and> fst (run late_stop_trace (init (Inr 5) (Inr 9)))
   \<and> heights (snd (run late_stop_trace (init (Inr 5) (Inr 9)))) = [5]"
  by (simp add: late_stop_trace_def stop_in_wait_def failing_def admissible_def scanner_defs)

subsection \<open>The cursor while scanning\<close>

text \<open>
  Claim C8. In every scanner state with \<open>state\<close> scanning (reachable or not), an
  iteration of the loop does not decrease \<open>current\<close>: either \<open>current\<close> and the sent
  headers are unchanged, or \<open>current\<close> has grown by exactly one (without wrapping around)
  and exactly one header, the one pulled for the old \<open>current\<close>, was sent.
\<close>

theorem scanning_cursor_monotone:
  assumes "state bs = blkIsScanning"
  shows "current bs \<le> current (iteration e bs)
       \<and> (current (iteration e bs) = current bs \<and> outBlocks (iteration e bs) = outBlocks bs
          \<or> unat (current (iteration e bs)) = unat (current bs) + 1
            \<and> (\<exists>hdr. PullHeader e (current bs) = Inr hdr
                   \<and> outBlocks (iteration e bs) = outBlocks bs @ [hdr]))"
proof -
  from assms have c: "current (select_case e bs) = current bs"
    by (simp add: select_case_def split: sel_case.split)
  from iteration_cases [of e bs] show ?thesis
  proof (elim disjE conjE exE)
    assume "current (iteration e bs) = current (select_case e bs)"
      "outBlocks (iteration e bs) = outBlocks bs"
    with c show ?thesis by simp
  next
    fix hdr
    assume lt: "current (select_case e bs) < target (select_case e bs)"
      and cur: "current (iteration e bs) = current (select_case e bs) + 1"
      and pull: "PullHeader e (current (select_case e bs)) = Inr hdr"
      and out: "outBlocks (iteration e bs) = outBlocks bs @ [hdr]"
    from lt have suc: "unat (current (select_case e bs) + 1) = Suc (unat (current (select_case e bs)))"
      by (rule word_succ_below)
    with c cur have "unat (current (iteration e bs)) = unat (current bs) + 1" by simp
    moreover from this have "current bs \<le> current (iteration e bs)"
      by (simp add: word_le_nat_alt)
    ultimately show ?thesis using pull out c by simp
  qed
qed

theorem scanning_cursor_monotone_witness:
  "state (scanner blkIsScanning 5 9) = blkIsScanning
   \<and> current (scanner blkIsScanning 5 9) \<le> current (iteration (quiet 9) (scanner blkIsScanning 5 9))
   \<and> current (iteration (quiet 9) (scanner blkIsScanning 5 9)) = 6"
  using scanning_cursor_monotone [of "scanner blkIsScanning 5 9" "quiet 9"]
  by (simp add: scanner_def newBlkScanner_def quiet_def hdr_of_def iteration_def select_case_def
      scanNext_def checkTarget_def checkIdle_def)

subsection \<open>Wrap-around of the difference\<close>

lemma wrapped_diff:
  fixes t c :: u64
  assumes "t < c"
  shows "unat (t - c) = 2 ^ 64 - (unat c - unat t)"
proof -
  from assms have lt: "unat t < unat c" by (simp add: word_less_nat_alt)
  have b: "unat c < 2 ^ 64" using unsigned_less [of c] by simp
  from lt have "unat (t - c) = unat t + 2 ^ 64 - unat c"
    by (simp add: unat_sub_if')
  with lt b show ?thesis by simp
qed

lemma wrapped_diff_above:
  fixes t c :: u64
  assumes "t < c"
  shows "blkScannerHysteresis < t - c \<longleftrightarrow> unat c - unat t < 2 ^ 64 - 10"
proof -
  from assms have lt: "unat t < unat c" by (simp add: word_less_nat_alt)
  have b: "unat c < 2 ^ 64" using unsigned_less [of c] by simp
  have "blkScannerHysteresis < t - c \<longleftrightarrow> 10 < unat (t - c)"
    by (simp add: blkScannerHysteresis_def word_less_nat_alt)
  with wrapped_diff [OF assms] lt b show ?thesis by auto
qed

lemma wrapped_diff_below:
  fixes t c :: u64
  assumes "t < c"
  shows "t - c < blkScannerHysteresis \<longleftrightarrow> 2 ^ 64 - 10 < unat c - unat t"
proof -
  from assms have lt: "unat t < unat c" by (simp add: word_less_nat_alt)
  have b: "unat c < 2 ^ 64" using unsigned_less [of c] by simp
  have "t - c < blkScannerHysteresis \<longleftrightarrow> unat (t - c) < 10"
    by (simp add: blkScannerHysteresis_def word_less_nat_alt)
  with wrapped_diff [OF assms] lt b show ?thesis by auto
qed

text \<open>
  Claim C9, as amended. For \<open>target < current\<close> the unsigned difference
  \<open>target - current\<close> wraps around to \<open>2^64 - (current - target)\<close>. It is above the
  hysteresis, so that \<open>checkIdle\<close> moves an idling scanner back to scanning, exactly when
  \<open>current - target < 2^64 - 10\<close>; and \<open>checkTarget\<close>, when the target it fetches is below
  \<open>current\<close>, moves to idling exactly when \<open>current\<close> exceeds that target by more than
  \<open>2^64 - 10\<close>, so never when they are at most \<open>2^64 - 10\<close> apart. In particular
  \<open>checkIdle\<close> moves back to scanning when a failed \<open>CurrentHead\<close> call has set the
  target to 0 and \<open>current\<close> is positive and below \<open>2^64 - 10\<close>.
\<close>

theorem wrapped_difference:
  "(target bs < current bs \<longrightarrow>
      unat (target bs - current bs) = 2 ^ 64 - (unat (current bs) - unat (target bs))
      \<and> (state bs = blkIsIdling \<longrightarrow>
           (state (checkIdle e bs) = blkIsScanning
              \<longleftrightarrow> unat (current bs) - unat (target bs) < 2 ^ 64 - 10)))
   \<and> (state bs = blkIsScanning \<and> target bs < current bs \<and> top_bs (checkHead e) < current bs \<longrightarrow>
        (state (checkTarget e bs) = blkIsIdling
           \<longleftrightarrow> 2 ^ 64 - 10 < unat (current bs) - unat (top_bs (checkHead e))))
   \<and> (state bs = blkIsIdling \<and> 0 < current bs \<and> unat (current bs) < 2 ^ 64 - 10 \<longrightarrow>
        state (checkIdle e (bs \<lparr> target := top_bs (Inl err) \<rparr>)) = blkIsScanning)"
proof (intro conjI impI)
  assume "target bs < current bs"
  then show "unat (target bs - current bs) = 2 ^ 64 - (unat (current bs) - unat (target bs))"
    by (rule wrapped_diff)
next
  assume "target bs < current bs" "state bs = blkIsIdling"
  then show "state (checkIdle e bs) = blkIsScanning
      \<longleftrightarrow> unat (current bs) - unat (target bs) < 2 ^ 64 - 10"
    using wrapped_diff_above [of "target bs" "current bs"]
    by (simp add: checkIdle_def)
next
  assume a: "state bs = blkIsScanning \<and> target bs < current bs \<and> top_bs (checkHead e) < current bs"
  then have "top_bs (checkHead e) - current bs < blkScannerHysteresis
      \<longleftrightarrow> 2 ^ 64 - 10 < unat (current bs) - unat (top_bs (checkHead e))"
    using wrapped_diff_below [of "top_bs (checkHead e)" "current bs"] by simp
  with a show "state (checkTarget e bs) = blkIsIdling
      \<longleftrightarrow> 2 ^ 64 - 10 < unat (current bs) - unat (top_bs (checkHead e))"
    by (simp add: checkTarget_def Let_def)
next
  assume a: "state bs = blkIsIdling \<and> 0 < current bs \<and> unat (current bs) < 2 ^ 64 - 10"
  then have "blkScannerHysteresis < 0 - current bs"
    using wrapped_diff_above [of 0 "current bs"] by simp
  with a show "state (checkIdle e (bs \<lparr> target := top_bs (Inl err) \<rparr>)) = blkIsScanning"
    by (simp add: checkIdle_def top_bs_def)
qed

theorem wrapped_difference_witness:
  "target (scanner blkIsIdling 100 0) < current (scanner blkIsIdling 100 0)
   \<and> state (scanner blkIsIdling 100 0) = blkIsIdling
   \<and> unat (current (scanner blkIsIdling 100 0)) - unat (target (scanner blkIsIdling 100 0)) < 2 ^ 64 - 10
   \<and> unat (target (scanner blkIsIdling 100 0) - current (scanner blkIsIdling 100 0)) = 2 ^ 64 - 100
   \<and> state (checkIdle (quiet 0) (scanner blkIsIdling 100 0)) = blkIsScanning
   \<and> state (scanner blkIsScanning 100 90) = blkIsScanning
   \<and> target (scanner blkIsScanning 100 90) < current (scanner blkIsScanning 100 90)
   \<and> top_bs (checkHead (quiet 95)) < current (scanner blkIsScanning 100 90)
   \<and> state (checkTarget (quiet 95) (scanner blkIsScanning 100 90)) = blkIsScanning
   \<and> 0 < current (scanner blkIsIdling 100 50)
   \<and> state (checkIdle (quiet 0) ((scanner blkIsIdling 100 50) \<lparr> target := top_bs (Inl rpc_down) \<rparr>))
       = blkIsScanning"
  using wrapped_difference [of "scanner blkIsIdling 100 0" "quiet 0"]
    wrapped_difference [of "scanner blkIsScanning 100 90" "quiet 95"]
    wrapped_difference [of "scanner blkIsIdling 100 50" "quiet 0" rpc_down]
  by (simp add: scanner_def newBlkScanner_def quiet_def top_bs_def checkTarget_def checkIdle_def
      notify_def blkScannerHysteresis_def)

text \<open>
  At the upper end of the range the wrapped difference is small: with the checkpoint
  \<open>2^64 - 5\<close> and a failing head query, the target fetched by \<open>checkTarget\<close> is 0, below
  \<open>current\<close>, the difference is 5, and the scanner moves to idling; in the idling state
  with these values \<open>checkIdle\<close> does not move back to scanning.
\<close>

theorem wrapped_difference_counterexample:
  "top_bs (Inl rpc_down) < current (init (Inr 18446744073709551611) (Inl rpc_down))
   \<and> state (init (Inr 18446744073709551611) (Inl rpc_down)) = blkIsScanning
   \<and> state (checkTarget ((quiet 0) \<lparr> checkHead := Inl rpc_down \<rparr>)
              (init (Inr 18446744073709551611) (Inl rpc_down))) = blkIsIdling
   \<and> state (checkIdle (quiet 0) (scanner blkIsIdling 18446744073709551611 0)) = blkIsIdling"
  by (simp add: scanner_def scanner_defs)

section \<open>Properties of the token name lookup\<close>

lemma MustTokenName_returns:
  "MustTokenName (GetReturns t (Some err)) tid = Inr tid"
  "MustTokenName (GetReturns (Some tk) None) tid = Inr (if Name tk = [] then tid else Name tk)"
  by (simp_all add: MustTokenName_def Token_def Token_load_def)

lemma MustTokenName_panics_iff:
  "isl (MustTokenName g tid) \<longleftrightarrow> Token g = (None, None)"
  by (cases g) (auto simp add: MustTokenName_def Token_def Token_load_def split: if_splits)

text \<open>
  Claim C10 does not hold of the code. For a token the database does not know,
  \<open>GetToken\<close> returns a nil token and a nil error, \<open>Token\<close> returns the same, and
  \<open>MustTokenName\<close> reads the field \<open>Name\<close> through the nil pointer: it panics instead
  of returning the text of the token ID.
\<close>

theorem MustTokenName_not_found_panics:
  "Token (GetReturns None None) = (None, None)
   \<and> MustTokenName (GetReturns None None) tid = Inl NilPointerDereference"
  by (simp add: MustTokenName_def Token_def Token_load_def)

end
